theory Spec2Isabelle
  imports
    Main
    "HOL-Library.Sublist"
    "HOL-Library.Multiset"
    "HOL-Library.Char_ord"
    "HOL-Library.List_Lexorder"
    "HOL-Library.AList"
begin

section \<open>Shared vocabulary\<close>

text \<open>
  Python's \<open>str\<close> is modelled as \<^typ>\<open>string\<close>, one \<^typ>\<open>char\<close> per character, so that
  \<^const>\<open>length\<close> is \<open>len\<close>.  Exceptions are values of \<open>error\<close>; a function that can raise
  returns \<open>error + 'a\<close> with \<open>Inl\<close> for the exception.
\<close>

datatype error = TypeError | IndexError | KeyError | OSError | SystemExit

text \<open>Sequencing of calls that can raise.\<close>

definition and_then :: "error + 'a \<Rightarrow> ('a \<Rightarrow> error + 'b) \<Rightarrow> error + 'b" where
  "and_then m f = (case m of Inl e \<Rightarrow> Inl e | Inr x \<Rightarrow> f x)"

text \<open>\<open>str(n)\<close> for a non-negative integer: its decimal digits.\<close>

definition digit_char :: "nat \<Rightarrow> char" where
  "digit_char d = ''0123456789'' ! d"

fun str_nat :: "nat \<Rightarrow> string" where
  "str_nat n =
     (if n < 10 then [digit_char n]
      else str_nat (n div 10) @ [digit_char (n mod 10)])"

declare str_nat.simps [simp del]

text \<open>\<open>sep.join(xs)\<close>.\<close>

fun join :: "string \<Rightarrow> string list \<Rightarrow> string" where
  "join sep [] = []"
| "join sep [x] = x"
| "join sep (x # y # ys) = x @ sep @ join sep (y # ys)"

text \<open>\<open>s.count("\n")\<close>.\<close>

definition count_nl :: "string \<Rightarrow> nat" where
  "count_nl s = count_list s CHR 0x0A"


section \<open>Scripts/redact_large_lines.py\<close>

definition PLACEHOLDER :: "nat \<Rightarrow> string" where
  "PLACEHOLDER len = ''[redacted for brevity; original length: '' @ str_nat len @ '' chars]''"

text \<open>
  The generator \<open>redact_lines\<close> yields one output line per input line, in order; the list
  of what it yields is the \<open>map\<close> of its loop body over the input.
\<close>

definition redact_line :: "int \<Rightarrow> string \<Rightarrow> string" where
  "redact_line limit line =
     (if int (length line) \<le> limit then line
      else PLACEHOLDER (length line) @ [CHR 0x0A])"

definition redact_lines :: "string list \<Rightarrow> int \<Rightarrow> string list" where
  "redact_lines lines limit = map (redact_line limit) lines"


section \<open>Sprung/flatten.py: the group balancer\<close>

text \<open>
  \<open>dir_locs\<close> is a dict, modelled as an association list in insertion order (its keys are
  distinct); \<open>locs\<close>, the dict the loop keeps updating, is a map.  A group is a list of
  directory names.
\<close>

type_synonym group = "string list"

text \<open>\<open>sum(locs[d] for d in g)\<close>, the sort key; every \<open>d\<close> must be a key of \<open>locs\<close>.\<close>

definition group_loc :: "(string \<rightharpoonup> int) \<Rightarrow> group \<Rightarrow> int" where
  "group_loc locs g = sum_list (map (\<lambda>d. the (locs d)) g)"

text \<open>\<open>sum(locs[d] for d in new_group if d in locs)\<close>.\<close>

definition group_loc_present :: "(string \<rightharpoonup> int) \<Rightarrow> group \<Rightarrow> int" where
  "group_loc_present locs g = sum_list (map (\<lambda>d. the (locs d)) (filter (\<lambda>d. locs d \<noteq> None) g))"

text \<open>
  One pass of the \<open>while\<close> body.  \<open>sorted\<close> is stable, as \<^const>\<open>sort_key\<close> is; computing
  a key raises \<open>KeyError\<close> when a member is not in \<open>locs\<close>, \<open>smallest[1]\<close> raises
  \<open>IndexError\<close> when fewer than two groups are left, and \<open>groups.remove\<close> deletes the first
  equal element.
\<close>

definition merge_step ::
  "(string \<rightharpoonup> int) \<Rightarrow> group list \<Rightarrow> error + ((string \<rightharpoonup> int) \<times> group list)" where
  "merge_step locs groups =
     (if \<exists>g \<in> set groups. \<exists>d \<in> set g. locs d = None then Inl KeyError
      else case sort_key (group_loc locs) groups of
        g1 # g2 # _ \<Rightarrow>
          (let new_group = g1 @ g2;
               groups' = remove1 g2 (remove1 g1 groups) @ [new_group];
               new_key = join ''+'' new_group
           in Inr (locs(new_key \<mapsto> group_loc_present locs new_group), groups'))
      | _ \<Rightarrow> Inl IndexError)"

function merge_loop ::
  "(string \<rightharpoonup> int) \<Rightarrow> int \<Rightarrow> group list \<Rightarrow> error + group list" where
  "merge_loop locs max_files groups =
     (if int (length groups) > max_files then
        (case merge_step locs groups of
           Inl e \<Rightarrow> Inl e
         | Inr (locs', groups') \<Rightarrow> merge_loop locs' max_files groups')
      else Inr groups)"
  by pat_completeness auto
termination
proof (relation "measure (\<lambda>(locs, max_files, groups). length groups)")
  show "wf (measure (\<lambda>(locs :: string \<rightharpoonup> int, max_files :: int, groups :: group list). length groups))"
    by simp
next
  fix locs :: "string \<rightharpoonup> int" and max_files :: int and groups :: "group list"
    and x2 locs' groups'
  assume step: "merge_step locs groups = Inr x2" and x2: "(locs', groups') = x2"
  from step x2 obtain g1 g2 rest where
    srt: "sort_key (group_loc locs) groups = g1 # g2 # rest" and
    g': "groups' = remove1 g2 (remove1 g1 groups) @ [g1 @ g2]"
    by (auto simp: merge_step_def Let_def split: if_splits list.splits)
  have ms: "mset groups = mset (g1 # g2 # rest)"
    using srt mset_sort [of "group_loc locs" groups] by simp
  have in1: "g1 \<in> set groups"
    using ms by (metis list.set_intros(1) mset_eq_setD)
  have "mset (remove1 g1 groups) = mset (g2 # rest)"
    using ms by simp
  then have in2: "g2 \<in> set (remove1 g1 groups)"
    by (metis list.set_intros(1) mset_eq_setD)
  have "length (remove1 g1 groups) = length groups - 1"
    using in1 by (simp add: length_remove1)
  moreover have "length (remove1 g2 (remove1 g1 groups)) = length (remove1 g1 groups) - 1"
    using in2 by (simp add: length_remove1)
  moreover have "0 < length (remove1 g1 groups)"
    using in2 by (rule length_pos_if_in_set)
  ultimately have "length groups' < length groups"
    using g' by simp
  then show "((locs', max_files, groups'), (locs, max_files, groups))
      \<in> measure (\<lambda>(locs, max_files, groups). length groups)"
    by simp
qed

declare merge_loop.simps [simp del]

definition merge_smallest_dirs :: "(string \<times> int) list \<Rightarrow> int \<Rightarrow> error + group list" where
  "merge_smallest_dirs dir_locs max_files =
     merge_loop (map_of dir_locs) max_files (map (\<lambda>d. [d]) (map fst dir_locs))"

text \<open>The counts of the specification's worked example, in the order the dict lists them.\<close>

definition example_counts :: "(string \<times> int) list" where
  "example_counts = [(''A'', 10), (''B'', 20), (''C'', 5), (''D'', 1)]"


section \<open>Sprung/flatten.py: the tree being read\<close>

text \<open>
  A path is the list of its components below \<open>root\<close>, so \<open>root / g\<close> is \<open>[g]\<close>,
  \<open>file.relative_to(root)\<close> is the path itself and \<open>Path\<close> comparison is the
  lexicographic order on component lists.  The tree is the list of its entries in the order
  the operating system enumerates them, which the program does not control.  A regular file
  holds its decoded text, or \<open>None\<close> when it cannot be opened; \<open>Other\<close> is an entry
  that is neither a regular file nor a directory: a symbolic link whose target, in an
  existing directory outside the tree, does not exist (sockets, FIFOs and devices are not
  modelled).  The functions of
  this and the next three sections read the tree and leave it as it is: they are the
  program where the output directory lies outside the tree, and what the run writes there
  is returned as a list of files.  The run with the output directory inside the tree
  follows them.
\<close>

type_synonym path = "string list"

datatype node = Dir | File "string option" | Other

type_synonym tree = "(path \<times> node) list"

definition name :: "path \<Rightarrow> string" where
  "name p = (if p = [] then [] else last p)"

text \<open>\<open>s.rfind(c)\<close>: the last index of \<open>c\<close>, if any.\<close>

fun rfind :: "char \<Rightarrow> string \<Rightarrow> nat option" where
  "rfind c [] = None"
| "rfind c (x # xs) =
     (case rfind c xs of
        Some i \<Rightarrow> Some (Suc i)
      | None \<Rightarrow> if x = c then Some 0 else None)"

text \<open>\<open>PurePath.suffix\<close> of a file name: from the last dot, unless that dot is first or last.\<close>

definition path_suffix :: "string \<Rightarrow> string" where
  "path_suffix nm =
     (case rfind CHR ''.'' nm of
        None \<Rightarrow> []
      | Some i \<Rightarrow> if 0 < i \<and> i < length nm - 1 then drop i nm else [])"

definition is_file :: "tree \<Rightarrow> path \<Rightarrow> bool" where
  "is_file t p = (case map_of t p of Some (File _) \<Rightarrow> True | _ \<Rightarrow> False)"

definition is_dir :: "tree \<Rightarrow> path \<Rightarrow> bool" where
  "is_dir t p = (map_of t p = Some Dir)"

text \<open>\<open>directory.iterdir()\<close> and \<open>directory.rglob("*")\<close>, in enumeration order.\<close>

definition iterdir :: "tree \<Rightarrow> path \<Rightarrow> path list" where
  "iterdir t directory = filter (\<lambda>p. p \<noteq> [] \<and> butlast p = directory) (map fst t)"

definition rglob :: "tree \<Rightarrow> path \<Rightarrow> path list" where
  "rglob t directory = filter (strict_prefix directory) (map fst t)"

text \<open>\<open>file.open("r", errors="ignore")\<close> followed by reading the whole text.\<close>

definition read_text :: "tree \<Rightarrow> path \<Rightarrow> error + string" where
  "read_text t p = (case map_of t p of Some (File (Some s)) \<Rightarrow> Inr s | _ \<Rightarrow> Inl OSError)"

definition gather_swift_files :: "tree \<Rightarrow> path \<Rightarrow> path list" where
  "gather_swift_files t directory =
     filter (\<lambda>p. path_suffix (name p) \<in> set [''.swift'', ''.txt'', ''.md'']
                \<and> \<not> prefix ''Merged_'' (name p)
                \<and> is_file t p)
       (rglob t directory)"

text \<open>
  \<open>sum(1 for _ in f)\<close>: the number of lines a text file iterates over, one for each newline
  and one more for a last line without one.
\<close>

definition num_lines :: "string \<Rightarrow> nat" where
  "num_lines s = count_nl s + (if s \<noteq> [] \<and> last s \<noteq> CHR 0x0A then 1 else 0)"

text \<open>The loop of \<open>count_lines_in_dir\<close>, with its \<open>try\<close> ... \<open>except Exception: pass\<close>.\<close>

fun count_loop :: "tree \<Rightarrow> path list \<Rightarrow> int \<Rightarrow> int" where
  "count_loop t [] tot = tot"
| "count_loop t (file # files) tot =
     count_loop t files
       (case read_text t file of
          Inl e \<Rightarrow> tot
        | Inr s \<Rightarrow> tot + int (num_lines s))"

definition count_lines_in_dir :: "tree \<Rightarrow> path \<Rightarrow> int" where
  "count_lines_in_dir t subdir = count_loop t (gather_swift_files t subdir) 0"


section \<open>Sprung/flatten.py: the archive writer\<close>

definition DIVIDER :: string where
  "DIVIDER = ''\<newline>'' @ replicate 80 CHR ''='' @ ''\<newline>''"

text \<open>\<open>str(rel_path)\<close>.\<close>

definition path_str :: "path \<Rightarrow> string" where
  "path_str p = join ''/'' p"

definition header :: "path \<Rightarrow> string" where
  "header rel = DIVIDER @ ''// FILE: '' @ path_str rel @ ''\<newline>'' @ DIVIDER @ ''\<newline>''"

text \<open>The tuple \<open>(start_line, rel_path.name, file_line_count, rel_path)\<close>.\<close>

record index_entry =
  start_line :: nat
  filename :: string
  loc :: nat
  rel_path :: path

text \<open>
  The \<open>for file in sorted(all_files)\<close> loop: \<open>out\<close> is the text written to the archive so
  far.  A file that cannot be read raises out of the loop.
\<close>

fun write_files ::
  "tree \<Rightarrow> path list \<Rightarrow> nat \<Rightarrow> string \<Rightarrow> index_entry list
     \<Rightarrow> error + (string \<times> index_entry list)" where
  "write_files t [] line_counter out index_entries = Inr (out, index_entries)"
| "write_files t (file # files) line_counter out index_entries =
     (let hdr = header file;
          header_lines = count_nl hdr
      in case read_text t file of
           Inl e \<Rightarrow> Inl e
         | Inr contents \<Rightarrow>
             (let file_line_count = count_nl contents + 1
              in write_files t files (line_counter + header_lines + file_line_count)
                   (out @ hdr @ contents @ ''\<newline>'')
                   (index_entries @
                      [\<lparr>start_line = line_counter, filename = name file,
                        loc = file_line_count, rel_path = file\<rparr>])))"

record archive =
  out_file :: string
  out_text :: string
  label :: string
  entries :: "index_entry list"

definition combine_swift_files :: "tree \<Rightarrow> path list \<Rightarrow> error + archive option" where
  "combine_swift_files t subdirs =
     (let all_files = concat (map (gather_swift_files t) subdirs)
      in if all_files = [] then Inr None
         else
           (let out_name =
                  (if length subdirs = 1 then name (subdirs ! 0)
                   else ''Merged_'' @ join ''+'' (map name subdirs))
            in case write_files t (sort all_files) 1 [] [] of
                 Inl e \<Rightarrow> Inl e
               | Inr (out, index_entries) \<Rightarrow>
                   Inr (Some \<lparr>out_file = out_name @ ''.txt'', out_text = out,
                              label = out_name, entries = index_entries\<rparr>)))"


section \<open>Sprung/flatten.py: the index emitter\<close>

text \<open>The box-drawing characters and arrows of the index, as written to the file in UTF-8.\<close>

definition BAR :: string where
  "BAR = [CHR 0xE2, CHR 0x94, CHR 0x82]"

definition TEE :: string where
  "TEE = [CHR 0xE2, CHR 0x94, CHR 0x9C, CHR 0xE2, CHR 0x94, CHR 0x80, CHR 0xE2, CHR 0x94, CHR 0x80]"

definition ELL :: string where
  "ELL = [CHR 0xE2, CHR 0x94, CHR 0x94, CHR 0xE2, CHR 0x94, CHR 0x80, CHR 0xE2, CHR 0x94, CHR 0x80]"

definition UP :: string where
  "UP = [CHR 0xE2, CHR 0x86, CHR 0x91]"

definition RIGHT :: string where
  "RIGHT = [CHR 0xE2, CHR 0x86, CHR 0x92]"

definition index_key :: string where
  "index_key =
     ''.\<newline>'' @
     BAR @ ''\<newline>'' @
     BAR @ ''  KEY:\<newline>'' @
     BAR @ ''    <number>  = line number where this file starts in the .txt file\<newline>'' @
     BAR @ ''    (<N> lines) = total number of lines of Swift code for that file\<newline>'' @
     BAR @ ''\<newline>'' @
     BAR @ ''  Example:  151  - InterviewOrchestrator.swift (22 lines)\<newline>'' @
     BAR @ ''           '' @ UP @ ''start'' @ BAR @ ''          '' @ BAR @ '' file length ''
         @ RIGHT @ '' 22 lines\<newline>'' @
     BAR @ ''\<newline>''"

text \<open>\<open>f"{n:<5}"\<close>: the decimal digits, padded on the right to five characters.\<close>

definition ljust5 :: "string \<Rightarrow> string" where
  "ljust5 s = s @ replicate (5 - length s) CHR '' ''"

definition entry_line :: "bool \<Rightarrow> index_entry \<Rightarrow> string" where
  "entry_line is_last e =
     (if is_last then BAR @ ''   '' @ ELL @ '' '' else BAR @ ''   '' @ TEE @ '' '')
       @ ljust5 (str_nat (start_line e)) @ '' - '' @ filename e
       @ '' ('' @ str_nat (loc e) @ '' lines)\<newline>''"

text \<open>The \<open>enumerate(entries)\<close> loop; the last entry is the one with \<open>i = len(entries) - 1\<close>.\<close>

fun entry_lines :: "index_entry list \<Rightarrow> string" where
  "entry_lines [] = []"
| "entry_lines [e] = entry_line True e"
| "entry_lines (e # e' # es) = entry_line False e @ entry_lines (e' # es)"

definition archive_lines ::
  "(string \<times> group) list \<Rightarrow> string \<times> index_entry list \<Rightarrow> string" where
  "archive_lines merge_info item =
     (case item of (out_name, index_entries) \<Rightarrow>
        (case map_of merge_info out_name of
           Some dirs \<Rightarrow>
             TEE @ '' '' @ out_name @ ''.txt  (merged: '' @ join '', '' dirs @ '')\<newline>''
         | None \<Rightarrow> TEE @ '' '' @ out_name @ ''.txt\<newline>'')
        @ entry_lines index_entries @ BAR @ ''\<newline>'')"

text \<open>
  The text of \<open>SourceIndex.txt\<close>.  Both dicts are association lists in insertion order;
  \<open>sorted(index_data.items())\<close> orders the items by their key, the keys being distinct.
\<close>

definition create_index_file ::
  "(string \<times> index_entry list) list \<Rightarrow> (string \<times> group) list \<Rightarrow> string" where
  "create_index_file index_data merge_info =
     index_key @ concat (map (archive_lines merge_info) (sort_key fst index_data))"


section \<open>Sprung/flatten.py: main\<close>

text \<open>
  The state of the \<open>for group in groups\<close> loop: the files written to the output directory
  so far (name and text, in the order written), \<open>index_data\<close> and \<open>merge_info\<close>.
  \<open>combine_swift_files\<close> returns \<open>None\<close> for a group without eligible files, and unpacking
  \<open>None\<close> into \<open>merged_label, entries\<close> raises \<open>TypeError\<close>.
\<close>

record run =
  files :: "(string \<times> string) list"
  index_data :: "(string \<times> index_entry list) list"
  merge_info :: "(string \<times> group) list"

fun flatten_groups :: "tree \<Rightarrow> group list \<Rightarrow> run \<Rightarrow> error + run" where
  "flatten_groups t [] r = Inr r"
| "flatten_groups t (grp # groups) r =
     (let dirs_to_merge = map (\<lambda>g. [g]) grp
      in case combine_swift_files t dirs_to_merge of
           Inl e \<Rightarrow> Inl e
         | Inr None \<Rightarrow> Inl TypeError
         | Inr (Some a) \<Rightarrow>
             (let r1 = r\<lparr>files := files r @ [(out_file a, out_text a)]\<rparr>
              in if entries a \<noteq> [] then
                   flatten_groups t groups
                     (r1\<lparr>index_data := AList.update (label a) (entries a) (index_data r1),
                         merge_info :=
                           (if length grp > 1 then AList.update (label a) grp (merge_info r1)
                            else merge_info r1)\<rparr>)
                 else flatten_groups t groups r1))"

text \<open>
  The first two parts of \<open>main\<close>, counting and grouping: the top-level directories in
  sorted order, the dict of their line counts, and the groups, merged when \<open>--max-files\<close>
  is given (and not zero) and there are more directories than that.
\<close>

definition main_groups :: "tree \<Rightarrow> int option \<Rightarrow> error + group list" where
  "main_groups t max_files =
     (let subdirs = filter (is_dir t) (sort (iterdir t []));
          dir_locs = fold (\<lambda>d m. AList.update (name d) (count_lines_in_dir t d) m) subdirs []
      in case max_files of
           None \<Rightarrow> Inr (map (\<lambda>d. [name d]) subdirs)
         | Some m \<Rightarrow>
             if m \<noteq> 0 \<and> int (length subdirs) > m
             then merge_smallest_dirs dir_locs (max (m - 1) 1)
             else Inr (map (\<lambda>d. [name d]) subdirs))"

text \<open>
  \<open>main\<close> of flatten.py with the output directory outside the tree; \<open>max_files\<close> is the
  optional \<open>--max-files\<close> argument.  The result is the run's final state, with
  \<open>SourceIndex.txt\<close> as the last file written when \<open>index_data\<close> is not empty.  Printing
  is left out.
\<close>

definition flatten_main :: "tree \<Rightarrow> int option \<Rightarrow> error + run" where
  "flatten_main t max_files =
     (case main_groups t max_files of
        Inl e \<Rightarrow> Inl e
      | Inr gs \<Rightarrow>
          (case flatten_groups t gs \<lparr>files = [], index_data = [], merge_info = []\<rparr> of
             Inl e \<Rightarrow> Inl e
           | Inr r \<Rightarrow>
               if index_data r \<noteq> []
               then Inr (r\<lparr>files := files r @
                      [(''SourceIndex.txt'', create_index_file (index_data r) (merge_info r))]\<rparr>)
               else Inr r))"

text \<open>Every file a run has ingested lies below a top-level directory of the root.\<close>

definition below_subdirs :: "run \<Rightarrow> bool" where
  "below_subdirs r =
     (\<forall>item \<in> set (index_data r). \<forall>e \<in> set (snd item). 2 \<le> length (rel_path e))"


section \<open>Sprung/flatten.py: a run that writes into the tree it reads\<close>














section \<open>Scripts/export_template_defaults.py\<close>

text \<open>
  The output directory is a tree of named children, each of one of four kinds:
  \<^item> a regular file with its text (a symbolic link to a regular file counts as that file:
    \<open>is_file()\<close> is true of it and \<open>unlink()\<close> removes it);
  \<^item> a directory with its children in enumeration order;
  \<^item> a symbolic link to a directory, with the children of its target: \<open>is_dir()\<close> is
    true of it and \<open>iterdir()\<close> lists the target, but \<open>rmdir()\<close> raises on the link;
  \<^item> a symbolic link whose target, in an existing directory outside the output directory,
    does not exist: \<open>exists()\<close>, \<open>is_file()\<close> and \<open>is_dir()\<close> are all false of it, and
    writing through it creates the target.
  Sockets, FIFOs and devices are not modelled.  \<open>None\<close> is a path that does not exist.
\<close>

datatype fsnode =
    RegFile string
  | Directory "(string \<times> fsnode) list"
  | DirLink "(string \<times> fsnode) list"
  | DanglingLink

text \<open>
  \<open>ensure_clean_directory\<close>, with the loop over \<open>path.iterdir()\<close> as \<open>clean_children\<close>,
  which returns the children left in place.  \<open>iterdir\<close> on a regular file raises, as does
  the final \<open>mkdir(parents=True, exist_ok=True)\<close> on a dangling link; that \<open>mkdir\<close>
  creates the directory when the path is missing.  For a child with \<open>is_dir()\<close> true the
  function calls itself and then \<open>child.rmdir()\<close>, which raises on a directory that is not
  empty and on every link.  A child that is neither a file nor a directory is skipped.
\<close>

fun ensure_clean_directory :: "fsnode option \<Rightarrow> error + fsnode"
  and clean_children :: "(string \<times> fsnode) list \<Rightarrow> error + (string \<times> fsnode) list" where
  "ensure_clean_directory None = Inr (Directory [])"
| "ensure_clean_directory (Some (Directory cs)) =
     (case clean_children cs of
        Inl e \<Rightarrow> Inl e
      | Inr cs' \<Rightarrow> Inr (Directory cs'))"
| "ensure_clean_directory (Some (DirLink cs)) =
     (case clean_children cs of
        Inl e \<Rightarrow> Inl e
      | Inr cs' \<Rightarrow> Inr (DirLink cs'))"
| "ensure_clean_directory (Some (RegFile s)) = Inl OSError"
| "ensure_clean_directory (Some DanglingLink) = Inl OSError"
| "clean_children [] = Inr []"
| "clean_children ((n, RegFile s) # rest) = clean_children rest"
| "clean_children ((n, Directory cs) # rest) =
     (case ensure_clean_directory (Some (Directory cs)) of
        Inl e \<Rightarrow> Inl e
      | Inr (Directory []) \<Rightarrow> clean_children rest
      | Inr _ \<Rightarrow> Inl OSError)"
| "clean_children ((n, DirLink cs) # rest) =
     (case ensure_clean_directory (Some (DirLink cs)) of
        Inl e \<Rightarrow> Inl e
      | Inr _ \<Rightarrow> Inl OSError)"
| "clean_children ((n, DanglingLink) # rest) =
     (case clean_children rest of
        Inl e \<Rightarrow> Inl e
      | Inr rest' \<Rightarrow> Inr ((n, DanglingLink) # rest'))"

text \<open>
  \<open>(d / nm).mkdir(parents=True, exist_ok=True)\<close> and \<open>(d / nm).write_text(s)\<close> on the
  children of an existing directory \<open>d\<close>.  A new entry is listed last.  \<open>mkdir\<close> accepts
  an entry with \<open>is_dir()\<close> true and raises on any other; \<open>write_text\<close> raises on an
  entry with \<open>is_dir()\<close> true, replaces the text of a regular file, and through a dangling
  link creates its target, after which the entry reads as a regular file.
\<close>

definition mkdir :: "string \<Rightarrow> (string \<times> fsnode) list \<Rightarrow> error + (string \<times> fsnode) list" where
  "mkdir nm cs =
     (case map_of cs nm of
        None \<Rightarrow> Inr (cs @ [(nm, Directory [])])
      | Some (Directory sub) \<Rightarrow> Inr cs
      | Some (DirLink sub) \<Rightarrow> Inr cs
      | Some (RegFile old) \<Rightarrow> Inl OSError
      | Some DanglingLink \<Rightarrow> Inl OSError)"

definition write_text ::
  "string \<Rightarrow> string \<Rightarrow> (string \<times> fsnode) list \<Rightarrow> error + (string \<times> fsnode) list" where
  "write_text nm s cs =
     (case map_of cs nm of
        None \<Rightarrow> Inr (cs @ [(nm, RegFile s)])
      | Some (RegFile old) \<Rightarrow> Inr (AList.update nm (RegFile s) cs)
      | Some DanglingLink \<Rightarrow> Inr (AList.update nm (RegFile s) cs)
      | Some (Directory sub) \<Rightarrow> Inl OSError
      | Some (DirLink sub) \<Rightarrow> Inl OSError)"

text \<open>
  A row of \<open>ZTEMPLATE\<close> as the loop uses it: the slug, taken to be a single path component,
  and the four texts written for it (the HTML, the plain text, and the JSON renderings of
  the manifest and of the latest seed).
\<close>

record template_row =
  slug :: string
  html_text :: string
  txt_text :: string
  manifest_text :: string
  seed_text :: string

text \<open>The four \<open>write_text\<close> calls of a row, on the children of its template directory.\<close>

definition write_template_files ::
  "template_row \<Rightarrow> (string \<times> fsnode) list \<Rightarrow> error + (string \<times> fsnode) list" where
  "write_template_files row sub =
     and_then (write_text (slug row @ ''.html'') (html_text row) sub) (\<lambda>sub1.
     and_then (write_text (slug row @ ''.txt'') (txt_text row) sub1) (\<lambda>sub2.
     and_then (write_text (slug row @ ''.manifest.json'') (manifest_text row) sub2) (\<lambda>sub3.
     write_text (slug row @ ''.seed.json'') (seed_text row) sub3)))"

text \<open>
  The body of \<open>for row in rows\<close> in \<open>export_templates\<close>: \<open>template_dir.mkdir\<close>, then the
  four files, written into the directory or, through a link, into its target.
\<close>

definition export_row ::
  "template_row \<Rightarrow> (string \<times> fsnode) list \<Rightarrow> error + (string \<times> fsnode) list" where
  "export_row row cs =
     and_then (mkdir (slug row) cs) (\<lambda>cs1.
       case map_of cs1 (slug row) of
         Some (Directory sub) \<Rightarrow>
           and_then (write_template_files row sub) (\<lambda>sub4.
             Inr (AList.update (slug row) (Directory sub4) cs1))
       | Some (DirLink sub) \<Rightarrow>
           and_then (write_template_files row sub) (\<lambda>sub4.
             Inr (AList.update (slug row) (DirLink sub4) cs1))
       | _ \<Rightarrow> Inl OSError)"

fun export_rows ::
  "template_row list \<Rightarrow> (string \<times> fsnode) list \<Rightarrow> error + (string \<times> fsnode) list" where
  "export_rows [] cs = Inr cs"
| "export_rows (row # rows) cs = and_then (export_row row cs) (export_rows rows)"

text \<open>
  \<open>export_templates\<close> on the output directory (or on the target of a link to it): the
  rows in order, then \<open>catalog.json\<close>, whose text (with its generation time) is a parameter.
\<close>

definition export_templates :: "template_row list \<Rightarrow> string \<Rightarrow> fsnode \<Rightarrow> error + fsnode" where
  "export_templates rows catalog output_dir =
     (case output_dir of
        Directory cs \<Rightarrow>
          and_then (export_rows rows cs) (\<lambda>cs1.
          and_then (write_text ''catalog.json'' catalog cs1) (\<lambda>cs2.
            Inr (Directory cs2)))
      | DirLink cs \<Rightarrow>
          and_then (export_rows rows cs) (\<lambda>cs1.
          and_then (write_text ''catalog.json'' catalog cs1) (\<lambda>cs2.
            Inr (DirLink cs2)))
      | _ \<Rightarrow> Inl OSError)"

text \<open>
  \<open>main\<close> of export_template_defaults.py, from the state of the output path to its state
  after the run; \<open>store_exists\<close> is \<open>store_path.exists()\<close>.
\<close>

definition export_main ::
  "bool \<Rightarrow> template_row list \<Rightarrow> string \<Rightarrow> fsnode option \<Rightarrow> error + fsnode" where
  "export_main store_exists rows catalog output_dir =
     (if \<not> store_exists then Inl SystemExit
      else and_then (ensure_clean_directory output_dir) (export_templates rows catalog))"

text \<open>A tree all of whose entries are regular files and directories, without links.\<close>

fun regular :: "fsnode \<Rightarrow> bool" where
  "regular (RegFile s) = True"
| "regular (Directory cs) = list_all (\<lambda>c. regular (snd c)) cs"
| "regular (DirLink cs) = False"
| "regular DanglingLink = False"


section \<open>Line accounting of an archive\<close>

text \<open>
  What the writer emits for one entry: the header of its path, the text of the file and the
  trailing newline.  \<open>block_offset\<close> is the number of characters written before the block
  of entry \<open>i\<close>, and \<open>physical_line txt k\<close> the 1-based number of the line of \<open>txt\<close> that
  holds the character at offset \<open>k\<close>.
\<close>

definition entry_block :: "tree \<Rightarrow> index_entry \<Rightarrow> string" where
  "entry_block t e =
     header (rel_path e)
       @ (case read_text t (rel_path e) of Inl err \<Rightarrow> [] | Inr contents \<Rightarrow> contents)
       @ ''\<newline>''"

definition block_offset :: "tree \<Rightarrow> index_entry list \<Rightarrow> nat \<Rightarrow> nat" where
  "block_offset t es i = length (concat (map (entry_block t) (take i es)))"

definition physical_line :: "string \<Rightarrow> nat \<Rightarrow> nat" where
  "physical_line txt k = 1 + count_nl (take k txt)"

text \<open>A directory with two eligible files, and the archive written for it.\<close>

definition example_tree :: tree where
  "example_tree =
     [([''A''], Dir),
      ([''A'', ''b.txt''], File (Some ''y\<newline>z'')),
      ([''A'', ''a.swift''], File (Some ''x''))]"

definition example_archive :: archive where
  "example_archive =
     \<lparr>out_file = ''A.txt'',
      out_text = header [''A'', ''a.swift''] @ ''x'' @ ''\<newline>''
               @ header [''A'', ''b.txt''] @ ''y\<newline>z'' @ ''\<newline>'',
      label = ''A'',
      entries =
        [\<lparr>start_line = 1, filename = ''a.swift'', loc = 1, rel_path = [''A'', ''a.swift'']\<rparr>,
         \<lparr>start_line = 8, filename = ''b.txt'', loc = 2, rel_path = [''A'', ''b.txt'']\<rparr>]\<rparr>"


section \<open>Example inputs\<close>

text \<open>A top-level directory without eligible files.\<close>

definition empty_dir_tree :: tree where
  "empty_dir_tree = [([''A''], Dir), ([''A'', ''notes.pdf''], File (Some ''x''))]"

text \<open>The files of an earlier run, found in a subdirectory of the root.\<close>

definition nested_output_tree :: tree where
  "nested_output_tree =
     [([''out''], Dir),
      ([''out'', ''A.txt''], File (Some ''old'')),
      ([''out'', ''Merged_A+B.txt''], File (Some ''old'')),
      ([''out'', ''SourceIndex.txt''], File (Some ''old''))]"

text \<open>
  The output directory of an earlier run taken as the root: its generated files lie
  directly in it, beside a subdirectory that was there before.
\<close>

definition rerun_tree :: tree where
  "rerun_tree =
     [([''A.txt''], File (Some ''old'')),
      ([''Merged_A+B.txt''], File (Some ''old'')),
      ([''SourceIndex.txt''], File (Some ''old'')),
      ([''sub''], Dir),
      ([''sub'', ''n.md''], File (Some ''n''))]"

definition two_dirs_tree :: tree where
  "two_dirs_tree =
     [([''B''], Dir), ([''A''], Dir),
      ([''B'', ''b.md''], File (Some ''b\<newline>'')),
      ([''A'', ''a.swift''], File (Some ''a''))]"

text \<open>A directory one of whose eligible files cannot be read.\<close>

definition unreadable_tree :: tree where
  "unreadable_tree =
     [([''A''], Dir),
      ([''A'', ''a.swift''], File None),
      ([''A'', ''b.txt''], File (Some ''y\<newline>z''))]"



text \<open>One template row, and an output directory left by an earlier export.\<close>

definition example_row :: template_row where
  "example_row =
     \<lparr>slug = ''modern'', html_text = ''<p>'', txt_text = ''t'',
      manifest_text = ''{}'', seed_text = ''{}''\<rparr>"

definition old_output :: "(string \<times> fsnode) list" where
  "old_output = [(''old.txt'', RegFile ''x''), (''old'', Directory [(''a.html'', RegFile ''b'')])]"


section \<open>Properties of the redaction transform\<close>

text \<open>
  C8. The redaction transform is a function of the line list and the limit alone: it emits
  one line per input line, unchanged when its length is at most the limit, and otherwise
  the placeholder carrying the decimal length of the line, followed by a line terminator.
\<close>

theorem redact_lines_spec:
  "length (redact_lines lines limit) = length lines \<and>
   (\<forall>i < length lines.
      (int (length (lines ! i)) \<le> limit \<longrightarrow> redact_lines lines limit ! i = lines ! i) \<and>
      (limit < int (length (lines ! i)) \<longrightarrow>
         redact_lines lines limit ! i =
           ''[redacted for brevity; original length: '' @ str_nat (length (lines ! i))
             @ '' chars]'' @ [CHR 0x0A]))"
  by (simp add: redact_lines_def redact_line_def PLACEHOLDER_def)

theorem redact_lines_spec_witness:
  "redact_lines [''ab'', ''abcdefghijkl''] 5
     = [''ab'', ''[redacted for brevity; original length: 12 chars]\<newline>'']"
proof -
  let ?lines = "[''ab'', ''abcdefghijkl'']"
  have len: "length (redact_lines ?lines 5) = 2"
    and each: "\<forall>i < length ?lines.
      (int (length (?lines ! i)) \<le> 5 \<longrightarrow> redact_lines ?lines 5 ! i = ?lines ! i) \<and>
      (5 < int (length (?lines ! i)) \<longrightarrow>
         redact_lines ?lines 5 ! i =
           ''[redacted for brevity; original length: '' @ str_nat (length (?lines ! i))
             @ '' chars]'' @ [CHR 0x0A])"
    using redact_lines_spec [of ?lines 5] by simp_all
  from each have "redact_lines ?lines 5 ! 0 = ''ab''"
    by simp
  moreover from each have "redact_lines ?lines 5 ! 1
      = ''[redacted for brevity; original length: 12 chars]\<newline>''"
    by (simp add: str_nat.simps digit_char_def)
  ultimately show ?thesis
    using len by (simp add: list_eq_iff_nth_eq less_Suc_eq numeral_2_eq_2)
qed


section \<open>Properties of the group balancer\<close>

lemma mset_concat_remove1:
  "g \<in> set xs \<Longrightarrow> mset (concat xs) = mset g + mset (concat (remove1 g xs))"
  by (induction xs) auto

lemma merge_step_cases:
  assumes "merge_step locs groups = Inr (locs', groups')"
  obtains g1 g2 rest where
    "sort_key (group_loc locs) groups = g1 # g2 # rest"
    "groups' = remove1 g2 (remove1 g1 groups) @ [g1 @ g2]"
    "locs' = locs(join ''+'' (g1 @ g2) \<mapsto> group_loc_present locs (g1 @ g2))"
    "\<forall>g \<in> set groups. \<forall>d \<in> set g. locs d \<noteq> None"
  using assms by (auto simp: merge_step_def Let_def split: if_splits list.splits)

lemma sorted_pair_members:
  assumes "sort_key f groups = g1 # g2 # rest"
  shows "g1 \<in> set groups" and "g2 \<in> set (remove1 g1 groups)"
proof -
  have ms: "mset groups = mset (g1 # g2 # rest)"
    using assms mset_sort [of f groups] by simp
  show "g1 \<in> set groups"
    using ms by (metis list.set_intros(1) mset_eq_setD)
  have "mset (remove1 g1 groups) = mset (g2 # rest)"
    using ms by simp
  then show "g2 \<in> set (remove1 g1 groups)"
    by (metis list.set_intros(1) mset_eq_setD)
qed

lemma merge_step_length:
  assumes "merge_step locs groups = Inr (locs', groups')"
  shows "Suc (length groups') = length groups"
proof -
  from assms obtain g1 g2 rest where
    srt: "sort_key (group_loc locs) groups = g1 # g2 # rest" and
    g': "groups' = remove1 g2 (remove1 g1 groups) @ [g1 @ g2]"
    by (rule merge_step_cases)
  note in1 = sorted_pair_members(1) [OF srt] and in2 = sorted_pair_members(2) [OF srt]
  have "length (remove1 g1 groups) = length groups - 1"
    using in1 by (simp add: length_remove1)
  moreover have "length (remove1 g2 (remove1 g1 groups)) = length (remove1 g1 groups) - 1"
    using in2 by (simp add: length_remove1)
  moreover have "0 < length (remove1 g1 groups)"
    using in2 by (rule length_pos_if_in_set)
  ultimately show ?thesis
    using g' by simp
qed

lemma merge_step_members:
  assumes "merge_step locs groups = Inr (locs', groups')"
  shows "mset (concat groups') = mset (concat groups)"
proof -
  from assms obtain g1 g2 rest where
    srt: "sort_key (group_loc locs) groups = g1 # g2 # rest" and
    g': "groups' = remove1 g2 (remove1 g1 groups) @ [g1 @ g2]"
    by (rule merge_step_cases)
  note in1 = sorted_pair_members(1) [OF srt] and in2 = sorted_pair_members(2) [OF srt]
  have "mset (concat groups) = mset g1 + (mset g2 + mset (concat (remove1 g2 (remove1 g1 groups))))"
    using mset_concat_remove1 [OF in1] mset_concat_remove1 [OF in2] by simp
  then show ?thesis
    using g' by simp
qed

lemma merge_step_nonempty:
  assumes "merge_step locs groups = Inr (locs', groups')" and "[] \<notin> set groups"
  shows "[] \<notin> set groups'"
proof -
  from assms(1) obtain g1 g2 rest where
    srt: "sort_key (group_loc locs) groups = g1 # g2 # rest" and
    g': "groups' = remove1 g2 (remove1 g1 groups) @ [g1 @ g2]"
    by (rule merge_step_cases)
  have "g1 \<in> set groups"
    by (rule sorted_pair_members(1) [OF srt])
  then have "g1 \<noteq> []"
    using assms(2) by auto
  moreover have "set (remove1 g2 (remove1 g1 groups)) \<subseteq> set groups"
    by (meson set_remove1_subset subset_trans)
  ultimately show ?thesis
    using g' assms(2) by auto
qed

lemma merge_step_keys:
  assumes "merge_step locs groups = Inr (locs', groups')"
  shows "\<forall>g \<in> set groups'. \<forall>d \<in> set g. locs' d \<noteq> None"
proof -
  from assms obtain g1 g2 rest where
    srt: "sort_key (group_loc locs) groups = g1 # g2 # rest" and
    g': "groups' = remove1 g2 (remove1 g1 groups) @ [g1 @ g2]" and
    l': "locs' = locs(join ''+'' (g1 @ g2) \<mapsto> group_loc_present locs (g1 @ g2))" and
    keys: "\<forall>g \<in> set groups. \<forall>d \<in> set g. locs d \<noteq> None"
    by (rule merge_step_cases)
  have "set (concat groups') = set (concat groups)"
    using merge_step_members [OF assms] by (rule mset_eq_setD)
  then have "\<forall>g \<in> set groups'. \<forall>d \<in> set g. locs d \<noteq> None"
    using keys by auto
  then show ?thesis
    using l' by simp
qed

lemma merge_step_succeeds:
  assumes "2 \<le> length groups" and "\<forall>g \<in> set groups. \<forall>d \<in> set g. locs d \<noteq> None"
  shows "\<exists>locs' groups'. merge_step locs groups = Inr (locs', groups')"
proof -
  have "length (sort_key (group_loc locs) groups) = length groups"
    by simp
  with assms(1) obtain g1 g2 rest where "sort_key (group_loc locs) groups = g1 # g2 # rest"
    by (cases "sort_key (group_loc locs) groups" rule: remdups_adj.cases) auto
  with assms(2) show ?thesis
    by (auto simp: merge_step_def Let_def)
qed

lemma merge_loop_partition:
  assumes "1 \<le> max_files" and "\<forall>g \<in> set groups. \<forall>d \<in> set g. locs d \<noteq> None"
  shows "\<exists>gs. merge_loop locs max_files groups = Inr gs
           \<and> mset (concat gs) = mset (concat groups)
           \<and> ([] \<notin> set groups \<longrightarrow> [] \<notin> set gs)
           \<and> int (length gs) = (if max_files < int (length groups) then max_files else int (length groups))"
  using assms
proof (induction locs max_files groups rule: merge_loop.induct)
  case (1 locs max_files groups)
  show ?case
  proof (cases "max_files < int (length groups)")
    case False
    then show ?thesis
      by (simp add: merge_loop.simps)
  next
    case True
    with "1.prems"(1) have "2 \<le> length groups"
      by linarith
    then obtain locs' groups' where step: "merge_step locs groups = Inr (locs', groups')"
      using merge_step_succeeds "1.prems"(2) by blast
    have len: "Suc (length groups') = length groups"
      by (rule merge_step_length [OF step])
    have "\<exists>gs. merge_loop locs' max_files groups' = Inr gs
           \<and> mset (concat gs) = mset (concat groups')
           \<and> ([] \<notin> set groups' \<longrightarrow> [] \<notin> set gs)
           \<and> int (length gs) = (if max_files < int (length groups') then max_files else int (length groups'))"
      using "1.IH" [OF _ step refl "1.prems"(1) merge_step_keys [OF step]] True by simp
    then obtain gs where gs: "merge_loop locs' max_files groups' = Inr gs"
      "mset (concat gs) = mset (concat groups')"
      "[] \<notin> set groups' \<longrightarrow> [] \<notin> set gs"
      "int (length gs) = (if max_files < int (length groups') then max_files else int (length groups'))"
      by blast
    have "merge_loop locs max_files groups = Inr gs"
      using True step gs(1) by (subst merge_loop.simps) simp
    moreover have "mset (concat gs) = mset (concat groups)"
      using gs(2) merge_step_members [OF step] by simp
    moreover have "[] \<notin> set groups \<longrightarrow> [] \<notin> set gs"
      using gs(3) merge_step_nonempty [OF step] by blast
    moreover have "int (length gs) = max_files"
      using gs(4) len True by (auto split: if_splits)
    ultimately show ?thesis
      using True by simp
  qed
qed

text \<open>
  C9. For a dict of counts (distinct keys) and a target of at least 1, the balancer returns
  without raising; every key occurs exactly once in the returned groups and nothing else
  does, no group is empty, and the number of groups is the target when there are more keys
  than the target, the number of keys otherwise.
\<close>

theorem merge_smallest_dirs_partition:
  assumes "distinct (map fst dir_locs)" and "1 \<le> max_files"
  shows "\<exists>gs. merge_smallest_dirs dir_locs max_files = Inr gs
           \<and> distinct (concat gs) \<and> set (concat gs) = fst ` set dir_locs \<and> [] \<notin> set gs
           \<and> int (length gs) =
               (if max_files < int (length dir_locs) then max_files else int (length dir_locs))"
proof -
  let ?groups = "map (\<lambda>d. [d]) (map fst dir_locs)"
  have keys: "\<forall>g \<in> set ?groups. \<forall>d \<in> set g. map_of dir_locs d \<noteq> None"
    by (auto simp: map_of_eq_None_iff image_iff)
  have cc: "concat ?groups = map fst dir_locs"
    by (induction dir_locs) auto
  obtain gs where gs: "merge_loop (map_of dir_locs) max_files ?groups = Inr gs"
      "mset (concat gs) = mset (concat ?groups)"
      "[] \<notin> set ?groups \<longrightarrow> [] \<notin> set gs"
      "int (length gs) = (if max_files < int (length ?groups) then max_files else int (length ?groups))"
    using merge_loop_partition [OF assms(2) keys] by blast
  have m: "mset (concat gs) = mset (map fst dir_locs)"
    using gs(2) cc by simp
  have "distinct (concat gs)"
    using m assms(1) by (metis mset_eq_imp_distinct_iff)
  moreover have "set (concat gs) = fst ` set dir_locs"
    using mset_eq_setD [OF m] by simp
  moreover have "[] \<notin> set gs"
    using gs(3) by auto
  ultimately show ?thesis
    using gs(1,4) by (simp add: merge_smallest_dirs_def)
qed


theorem merge_smallest_dirs_partition_witness:
  "distinct (map fst example_counts) \<and> (1::int) \<le> 2 \<and>
   (\<exists>gs. merge_smallest_dirs example_counts 2 = Inr gs
      \<and> distinct (concat gs) \<and> set (concat gs) = {''A'', ''B'', ''C'', ''D''} \<and> [] \<notin> set gs
      \<and> length gs = 2)"
proof -
  have d: "distinct (map fst example_counts)"
    by (simp add: example_counts_def)
  have "fst ` set example_counts = {''A'', ''B'', ''C'', ''D''}"
    by (simp add: example_counts_def)
  moreover have "length example_counts = 4"
    by (simp add: example_counts_def)
  ultimately show ?thesis
    using d merge_smallest_dirs_partition [OF d, of 2] by simp
qed

lemma example_step1:
  "merge_step (map_of example_counts) [[''A''], [''B''], [''C''], [''D'']]
     = Inr ((map_of example_counts)(''D+C'' \<mapsto> 6), [[''A''], [''B''], [''D'', ''C'']])"
  by (simp add: merge_step_def example_counts_def group_loc_def group_loc_present_def Let_def)

lemma example_step2:
  "merge_step ((map_of example_counts)(''D+C'' \<mapsto> 6)) [[''A''], [''B''], [''D'', ''C'']]
     = Inr ((map_of example_counts)(''D+C'' \<mapsto> 6, ''D+C+A'' \<mapsto> 16),
            [[''B''], [''D'', ''C'', ''A'']])"
  by (simp add: merge_step_def example_counts_def group_loc_def group_loc_present_def Let_def)

lemma example_groups:
  "map (\<lambda>d. [d]) (map fst example_counts) = [[''A''], [''B''], [''C''], [''D'']]"
  by (simp add: example_counts_def)

lemma example_result:
  "merge_smallest_dirs example_counts 2 = Inr [[''B''], [''D'', ''C'', ''A'']]"
  unfolding merge_smallest_dirs_def example_groups
  apply (subst merge_loop.simps)
  apply (simp add: example_step1)
  apply (subst merge_loop.simps)
  apply (simp add: example_step2)
  apply (subst merge_loop.simps)
  apply simp
  done

text \<open>
  C3. On the counts A:10, B:20, C:5, D:1 with target 2, the first pass of the loop merges
  D with C (total 6), the second merges that group with A (total 16), and the balancer
  returns the groups B and D, C, A: the partition of the specification.
\<close>

theorem balancer_example:
  "\<exists>locs1 locs2.
     merge_step (map_of example_counts) [[''A''], [''B''], [''C''], [''D'']]
       = Inr (locs1, [[''A''], [''B''], [''D'', ''C'']]) \<and>
     group_loc locs1 [''D'', ''C''] = 6 \<and>
     merge_step locs1 [[''A''], [''B''], [''D'', ''C'']]
       = Inr (locs2, [[''B''], [''D'', ''C'', ''A'']]) \<and>
     group_loc locs2 [''D'', ''C'', ''A''] = 16 \<and>
     merge_smallest_dirs example_counts 2 = Inr [[''B''], [''D'', ''C'', ''A'']] \<and>
     set (map set [[''B''], [''D'', ''C'', ''A'']]) = {{''D'', ''C'', ''A''}, {''B''}}"
proof (intro exI conjI)
  show "merge_step (map_of example_counts) [[''A''], [''B''], [''C''], [''D'']]
       = Inr ((map_of example_counts)(''D+C'' \<mapsto> 6), [[''A''], [''B''], [''D'', ''C'']])"
    by (rule example_step1)
  show "merge_step ((map_of example_counts)(''D+C'' \<mapsto> 6)) [[''A''], [''B''], [''D'', ''C'']]
     = Inr ((map_of example_counts)(''D+C'' \<mapsto> 6, ''D+C+A'' \<mapsto> 16),
            [[''B''], [''D'', ''C'', ''A'']])"
    by (rule example_step2)
  show "group_loc ((map_of example_counts)(''D+C'' \<mapsto> 6)) [''D'', ''C''] = 6"
    by (simp add: group_loc_def example_counts_def)
  show "group_loc ((map_of example_counts)(''D+C'' \<mapsto> 6, ''D+C+A'' \<mapsto> 16))
          [''D'', ''C'', ''A''] = 16"
    by (simp add: group_loc_def example_counts_def)
  show "merge_smallest_dirs example_counts 2 = Inr [[''B''], [''D'', ''C'', ''A'']]"
    by (rule example_result)
  show "set (map set [[''B''], [''D'', ''C'', ''A'']]) = {{''D'', ''C'', ''A''}, {''B''}}"
    by auto
qed

section \<open>Properties of the archive writer\<close>

lemma count_nl_append [simp]: "count_nl (xs @ ys) = count_nl xs + count_nl ys"
  by (simp add: count_nl_def)

lemma count_nl_simps [simp]:
  "count_nl [] = 0"
  "count_nl (c # cs) = (if c = CHR 0x0A then 1 else 0) + count_nl cs"
  by (simp_all add: count_nl_def)

lemma example_combine: "combine_swift_files example_tree [[''A'']] = Inr (Some example_archive)"
  by code_simp

lemma count_nl_header: "count_nl (header rel) = 6 + count_nl (path_str rel)"
  by (simp add: header_def DIVIDER_def count_nl_def)

lemma write_files_result:
  assumes "write_files t fs lc out es = Inr (out', es')"
  obtains new where
    "es' = es @ new"
    "map rel_path new = fs"
    "out' = out @ concat (map (entry_block t) new)"
    "\<forall>e \<in> set new. count_nl (entry_block t e) = count_nl (header (rel_path e)) + loc e"
    "\<forall>i < length new. start_line (new ! i) = lc + count_nl (concat (map (entry_block t) (take i new)))"
proof -
  have "\<exists>new. es' = es @ new \<and> map rel_path new = fs
      \<and> out' = out @ concat (map (entry_block t) new)
      \<and> (\<forall>e \<in> set new. count_nl (entry_block t e) = count_nl (header (rel_path e)) + loc e)
      \<and> (\<forall>i < length new. start_line (new ! i) = lc + count_nl (concat (map (entry_block t) (take i new))))"
    using assms
  proof (induction fs arbitrary: lc out es)
    case Nil
    then show ?case by simp
  next
    case (Cons f fs)
    from Cons.prems obtain contents where rd: "read_text t f = Inr contents"
      by (cases "read_text t f") (simp_all add: Let_def)
    define e0 where "e0 = \<lparr>start_line = lc, filename = name f, loc = count_nl contents + 1, rel_path = f\<rparr>"
    have e0: "start_line e0 = lc" "loc e0 = count_nl contents + 1" "rel_path e0 = f"
      by (simp_all add: e0_def)
    have blk: "entry_block t e0 = header f @ contents @ [CHR 0x0A]"
      by (simp add: entry_block_def e0 rd)
    have nblk: "count_nl (entry_block t e0) = count_nl (header f) + (count_nl contents + 1)"
      by (simp only: blk count_nl_append) simp
    have rec: "write_files t fs (lc + count_nl (header f) + (count_nl contents + 1))
        (out @ header f @ contents @ [CHR 0x0A]) (es @ [e0]) = Inr (out', es')"
      using Cons.prems rd by (simp add: Let_def e0_def)
    from Cons.IH [OF rec] obtain new where all: "es' = (es @ [e0]) @ new \<and> map rel_path new = fs
      \<and> out' = (out @ header f @ contents @ [CHR 0x0A]) @ concat (map (entry_block t) new)
      \<and> (\<forall>e \<in> set new. count_nl (entry_block t e) = count_nl (header (rel_path e)) + loc e)
      \<and> (\<forall>i < length new. start_line (new ! i) =
          lc + count_nl (header f) + (count_nl contents + 1) + count_nl (concat (map (entry_block t) (take i new))))"
      by (rule exE)
    note new = all [THEN conjunct1] all [THEN conjunct2, THEN conjunct1]
      all [THEN conjunct2, THEN conjunct2, THEN conjunct1]
      all [THEN conjunct2, THEN conjunct2, THEN conjunct2, THEN conjunct1]
      all [THEN conjunct2, THEN conjunct2, THEN conjunct2, THEN conjunct2]
    have starts: "\<forall>i < length (e0 # new). start_line ((e0 # new) ! i)
        = lc + count_nl (concat (map (entry_block t) (take i (e0 # new))))"
    proof (intro allI impI)
      fix i assume i: "i < length (e0 # new)"
      show "start_line ((e0 # new) ! i) = lc + count_nl (concat (map (entry_block t) (take i (e0 # new))))"
      proof (cases i)
        case 0
        then show ?thesis by (simp add: e0(1))
      next
        case (Suc k)
        then have "k < length new" using i by simp
        then have "start_line (new ! k) =
          lc + count_nl (header f) + (count_nl contents + 1) + count_nl (concat (map (entry_block t) (take k new)))"
          using new(5) by blast
        then show ?thesis
          using Suc nblk by simp
      qed
    qed
    have locs: "\<forall>e \<in> set (e0 # new). count_nl (entry_block t e) = count_nl (header (rel_path e)) + loc e"
      using new(4) nblk e0(2,3) by simp
    have eq1: "es' = es @ (e0 # new)"
      using new(1) by simp
    have eq2: "map rel_path (e0 # new) = f # fs"
      using new(2) e0(3) by simp
    have eq3: "out' = out @ concat (map (entry_block t) (e0 # new))"
      using new(3) blk by simp
    show ?case
      by (rule exI [of _ "e0 # new"]) (intro conjI eq1 eq2 eq3 locs starts)
  qed
  then obtain new where all: "es' = es @ new \<and> map rel_path new = fs
      \<and> out' = out @ concat (map (entry_block t) new)
      \<and> (\<forall>e \<in> set new. count_nl (entry_block t e) = count_nl (header (rel_path e)) + loc e)
      \<and> (\<forall>i < length new. start_line (new ! i) = lc + count_nl (concat (map (entry_block t) (take i new))))"
    by (rule exE)
  show ?thesis
    by (rule that [of new])
      (rule all [THEN conjunct1] all [THEN conjunct2, THEN conjunct1]
        all [THEN conjunct2, THEN conjunct2, THEN conjunct1]
        all [THEN conjunct2, THEN conjunct2, THEN conjunct2, THEN conjunct1]
        all [THEN conjunct2, THEN conjunct2, THEN conjunct2, THEN conjunct2])+
qed

lemma combine_result:
  assumes "combine_swift_files t subdirs = Inr (Some a)"
  shows "out_text a = concat (map (entry_block t) (entries a))"
    and "\<forall>e \<in> set (entries a). count_nl (entry_block t e) = count_nl (header (rel_path e)) + loc e"
    and "\<forall>i < length (entries a). start_line (entries a ! i)
           = 1 + count_nl (concat (map (entry_block t) (take i (entries a))))"
    and "map rel_path (entries a) = sort (concat (map (gather_swift_files t) subdirs))"
proof -
  from assms obtain out es where
    wf: "write_files t (sort (concat (map (gather_swift_files t) subdirs))) 1 [] [] = Inr (out, es)"
    and a: "out_text a = out" "entries a = es"
    by (auto simp: combine_swift_files_def Let_def split: if_splits sum.splits)
  obtain new where
    "es = [] @ new" "map rel_path new = sort (concat (map (gather_swift_files t) subdirs))"
    "out = [] @ concat (map (entry_block t) new)"
    "\<forall>e \<in> set new. count_nl (entry_block t e) = count_nl (header (rel_path e)) + loc e"
    "\<forall>i < length new. start_line (new ! i) = 1 + count_nl (concat (map (entry_block t) (take i new)))"
    by (rule write_files_result [OF wf])
  then show "out_text a = concat (map (entry_block t) (entries a))"
    and "\<forall>e \<in> set (entries a). count_nl (entry_block t e) = count_nl (header (rel_path e)) + loc e"
    and "\<forall>i < length (entries a). start_line (entries a ! i)
           = 1 + count_nl (concat (map (entry_block t) (take i (entries a))))"
    and "map rel_path (entries a) = sort (concat (map (gather_swift_files t) subdirs))"
    using a by simp_all
qed

lemma combine_next_start:
  assumes "combine_swift_files t subdirs = Inr (Some a)" and "Suc i < length (entries a)"
  shows "start_line (entries a ! Suc i)
    = start_line (entries a ! i) + count_nl (entry_block t (entries a ! i))"
proof -
  have "take (Suc i) (entries a) = take i (entries a) @ [entries a ! i]"
    using assms(2) by (simp add: take_Suc_conv_app_nth)
  then show ?thesis
    using combine_result(3) [OF assms(1)] assms(2) by simp
qed

text \<open>
  C1, as amended.  In every archive the writer produces, consecutive entries satisfy
  \<open>start_line[i+1] = start_line[i] + header_lines(i) + content_lines(i)\<close>, where
  \<open>header_lines(i)\<close> is the newline count of the header of entry \<open>i\<close> and
  \<open>content_lines(i)\<close> is the recorded line count (the file's newline count + 1): the
  recorded count already covers the trailing newline, and nothing more is added for it.
\<close>

theorem start_line_recurrence:
  assumes "combine_swift_files t subdirs = Inr (Some a)" and "Suc i < length (entries a)"
  shows "start_line (entries a ! Suc i)
    = start_line (entries a ! i) + count_nl (header (rel_path (entries a ! i))) + loc (entries a ! i)"
  using combine_next_start [OF assms] combine_result(2) [OF assms(1)] assms(2) by simp

theorem start_line_recurrence_witness:
  "combine_swift_files example_tree [[''A'']] = Inr (Some example_archive) \<and>
   Suc 0 < length (entries example_archive) \<and>
   start_line (entries example_archive ! Suc 0) = 1 + 6 + 1"
proof -
  have c: "combine_swift_files example_tree [[''A'']] = Inr (Some example_archive)"
    by (rule example_combine)
  have l: "Suc 0 < length (entries example_archive)"
    by (simp add: example_archive_def)
  have "count_nl (header (rel_path (entries example_archive ! 0))) = 6"
    by (simp add: count_nl_header example_archive_def path_str_def)
  moreover have "start_line (entries example_archive ! 0) = 1" "loc (entries example_archive ! 0) = 1"
    by (simp_all add: example_archive_def)
  ultimately show ?thesis
    using start_line_recurrence [OF c l] c l by simp
qed

text \<open>
  The recurrence of C1 as the specification states it, with a further \<open>+ 1\<close>, fails on
  the example: the second entry starts at line 8, not 9.
\<close>

theorem start_line_plus_one_counterexample:
  "combine_swift_files example_tree [[''A'']] = Inr (Some example_archive) \<and>
   start_line (entries example_archive ! 1) = 8 \<and>
   start_line (entries example_archive ! 0)
     + count_nl (header (rel_path (entries example_archive ! 0)))
     + loc (entries example_archive ! 0) + 1 = 9"
  using example_combine by (simp add: example_archive_def count_nl_header path_str_def)

text \<open>
  C5. In every archive the writer produces, the header of each entry begins at the
  character offset that follows the blocks of the entries before it, the recorded
  \<open>start_line\<close> is the 1-based physical line of that offset in the written text, and the
  \<open>start_line\<close> values are strictly increasing.
\<close>

theorem start_line_physical:
  assumes "combine_swift_files t subdirs = Inr (Some a)"
  shows "(\<forall>i < length (entries a).
            prefix (header (rel_path (entries a ! i)))
              (drop (block_offset t (entries a) i) (out_text a)) \<and>
            start_line (entries a ! i) = physical_line (out_text a) (block_offset t (entries a) i))
       \<and> (\<forall>i j. i < j \<and> j < length (entries a) \<longrightarrow>
            start_line (entries a ! i) < start_line (entries a ! j))"
proof (intro conjI allI impI)
  fix i assume i: "i < length (entries a)"
  let ?es = "entries a"
  have parts: "?es = take i ?es @ ?es ! i # drop (Suc i) ?es"
    using i by (rule id_take_nth_drop)
  have whole: "out_text a = concat (map (entry_block t) (take i ?es))
      @ entry_block t (?es ! i) @ concat (map (entry_block t) (drop (Suc i) ?es))"
    using combine_result(1) [OF assms]
      arg_cong [OF parts, of "\<lambda>l. concat (map (entry_block t) l)"] by simp
  show "prefix (header (rel_path (?es ! i))) (drop (block_offset t ?es i) (out_text a))"
    by (subst whole) (simp add: block_offset_def entry_block_def)
  show "start_line (?es ! i) = physical_line (out_text a) (block_offset t ?es i)"
    using combine_result(3) [OF assms] i
    by (subst whole) (simp add: block_offset_def physical_line_def)
next
  fix i j assume ij: "i < j \<and> j < length (entries a)"
  let ?es = "entries a"
  have "i < j \<Longrightarrow> j < length ?es \<Longrightarrow> start_line (?es ! i) < start_line (?es ! j)"
  proof (induction j)
    case 0
    then show ?case by simp
  next
    case (Suc j)
    have step: "start_line (?es ! Suc j) = start_line (?es ! j) + count_nl (entry_block t (?es ! j))"
      using combine_next_start [OF assms Suc.prems(2)] .
    have pos: "0 < count_nl (entry_block t (?es ! j))"
      by (simp add: entry_block_def)
    show ?case
    proof (cases "i = j")
      case True
      then show ?thesis using step pos by simp
    next
      case False
      then have "start_line (?es ! i) < start_line (?es ! j)"
        using Suc by simp
      then show ?thesis using step by simp
    qed
  qed
  then show "start_line (?es ! i) < start_line (?es ! j)"
    using ij by simp
qed

theorem start_line_physical_witness:
  "combine_swift_files example_tree [[''A'']] = Inr (Some example_archive) \<and>
   prefix (header [''A'', ''b.txt''])
     (drop (block_offset example_tree (entries example_archive) 1) (out_text example_archive)) \<and>
   physical_line (out_text example_archive)
     (block_offset example_tree (entries example_archive) 1) = 8 \<and>
   start_line (entries example_archive ! 0) < start_line (entries example_archive ! 1)"
proof -
  have c: "combine_swift_files example_tree [[''A'']] = Inr (Some example_archive)"
    by (rule example_combine)
  have l: "1 < length (entries example_archive)"
    by (simp add: example_archive_def)
  have e1: "rel_path (entries example_archive ! 1) = [''A'', ''b.txt'']"
    "start_line (entries example_archive ! 1) = 8"
    by (simp_all add: example_archive_def)
  note phys = start_line_physical [OF c]
  from phys l have "prefix (header (rel_path (entries example_archive ! 1)))
      (drop (block_offset example_tree (entries example_archive) 1) (out_text example_archive))"
    and "start_line (entries example_archive ! 1)
      = physical_line (out_text example_archive) (block_offset example_tree (entries example_archive) 1)"
    by blast+
  moreover from phys l
  have "start_line (entries example_archive ! 0) < start_line (entries example_archive ! 1)"
    by (metis zero_less_one)
  ultimately show ?thesis
    using c by (simp only: e1)
qed

section \<open>Properties of a run of flatten.py\<close>

subsection \<open>What the discoverer returns\<close>

lemma gather_member:
  assumes "p \<in> set (gather_swift_files t d)"
  shows "strict_prefix d p" and "\<not> prefix ''Merged_'' (name p)" and "is_file t p"
  using assms by (simp_all add: gather_swift_files_def rglob_def)

lemma gather_depth:
  assumes "p \<in> set (gather_swift_files t [g])"
  shows "2 \<le> length p"
proof -
  from gather_member(1) [OF assms] obtain zs where "p = [g] @ zs" and "zs \<noteq> []"
    by (auto simp: strict_prefix_def prefix_def)
  then show ?thesis
    by (cases zs) simp_all
qed

lemma combine_entry_paths:
  assumes "combine_swift_files t subdirs = Inr (Some a)" and "e \<in> set (entries a)"
  shows "\<exists>d \<in> set subdirs. rel_path e \<in> set (gather_swift_files t d)"
proof -
  have "rel_path e \<in> set (map rel_path (entries a))"
    using assms(2) by simp
  then have "rel_path e \<in> set (concat (map (gather_swift_files t) subdirs))"
    using combine_result(4) [OF assms(1)] by simp
  then show ?thesis
    by auto
qed

lemma combine_merged_name:
  assumes "combine_swift_files t subdirs = Inr (Some a)" and "length subdirs \<noteq> 1"
  shows "prefix ''Merged_'' (out_file a)"
proof -
  from assms have "out_file a = (''Merged_'' @ join ''+'' (map name subdirs)) @ ''.txt''"
    by (auto simp: combine_swift_files_def Let_def split: if_splits sum.splits)
  then show ?thesis
    by simp
qed

subsection \<open>The loop over the groups\<close>

lemma set_update_subset: "set (AList.update k v al) \<subseteq> insert (k, v) (set al)"
  by (induction al) auto

lemma flatten_groups_below:
  assumes "flatten_groups t gs r = Inr r'" and "below_subdirs r"
  shows "below_subdirs r'"
  using assms
proof (induction gs arbitrary: r)
  case Nil
  then show ?case by simp
next
  case (Cons grp gs)
  from Cons.prems(1) obtain a where
    a: "combine_swift_files t (map (\<lambda>g. [g]) grp) = Inr (Some a)"
    by (auto simp: Let_def split: sum.splits option.splits)
  have ea: "\<forall>e \<in> set (entries a). 2 \<le> length (rel_path e)"
  proof
    fix e assume "e \<in> set (entries a)"
    from combine_entry_paths [OF a this] obtain g where "rel_path e \<in> set (gather_swift_files t [g])"
      by auto
    then show "2 \<le> length (rel_path e)"
      by (rule gather_depth)
  qed
  define r1 where "r1 = r\<lparr>files := files r @ [(out_file a, out_text a)]\<rparr>"
  define r2 where "r2 = r1\<lparr>index_data := AList.update (label a) (entries a) (index_data r1),
      merge_info := (if length grp > 1 then AList.update (label a) grp (merge_info r1) else merge_info r1)\<rparr>"
  have d1: "below_subdirs r1"
    using Cons.prems(2) by (simp add: below_subdirs_def r1_def)
  have d2: "below_subdirs r2"
    unfolding below_subdirs_def
  proof (intro ballI)
    fix item e assume item: "item \<in> set (index_data r2)" and e: "e \<in> set (snd item)"
    from item have "item = (label a, entries a) \<or> item \<in> set (index_data r1)"
      using set_update_subset [of "label a" "entries a" "index_data r1"] by (auto simp: r2_def)
    then show "2 \<le> length (rel_path e)"
      using ea d1 e by (auto simp: below_subdirs_def)
  qed
  show ?case
  proof (cases "entries a = []")
    case True
    then have "flatten_groups t gs r1 = Inr r'"
      using Cons.prems(1) a by (simp add: Let_def r1_def)
    then show ?thesis
      using Cons.IH d1 by blast
  next
    case False
    then have "flatten_groups t gs r2 = Inr r'"
      using Cons.prems(1) a by (cases "1 < length grp") (simp_all add: Let_def r1_def r2_def)
    then show ?thesis
      using Cons.IH d2 by blast
  qed
qed

lemma flatten_main_below:
  assumes "flatten_main t mf = Inr r"
  shows "below_subdirs r"
proof -
  from assms obtain gs r0 where
    fg: "flatten_groups t gs \<lparr>files = [], index_data = [], merge_info = []\<rparr> = Inr r0"
    and r: "index_data r = index_data r0"
    by (auto simp: flatten_main_def split: sum.splits if_splits)
  have "below_subdirs \<lparr>files = [], index_data = [], merge_info = []\<rparr>"
    by (simp add: below_subdirs_def)
  from flatten_groups_below [OF fg this] show ?thesis
    using r by (simp add: below_subdirs_def)
qed

text \<open>
  C4, as amended.  An archive written for a group of several directories is named with
  the \<open>Merged_\<close> prefix, and the discoverer returns no file of that name, wherever it
  lies.  The index file and the archive of a single directory carry no such mark; but a
  run ingests only files below a top-level directory of its root, so a run whose root is
  the output directory of an earlier run ingests none of the files that run wrote, which
  lie directly in that directory.
\<close>

theorem generated_files_not_ingested:
  "(combine_swift_files t subdirs = Inr (Some a) \<and> length subdirs \<noteq> 1 \<and> name p = out_file a
      \<longrightarrow> p \<notin> set (gather_swift_files t' d))
   \<and> (flatten_main t mf = Inr r \<and> f \<in> fst ` set (files r)
        \<and> flatten_main t' mf' = Inr r' \<and> item \<in> set (index_data r') \<and> e \<in> set (snd item)
      \<longrightarrow> rel_path e \<noteq> [f])"
proof (intro conjI impI)
  assume h: "combine_swift_files t subdirs = Inr (Some a) \<and> length subdirs \<noteq> 1 \<and> name p = out_file a"
  then have "prefix ''Merged_'' (name p)"
    using combine_merged_name [of t subdirs a] by simp
  then show "p \<notin> set (gather_swift_files t' d)"
    using gather_member(2) [of p t' d] by blast
next
  assume h: "flatten_main t mf = Inr r \<and> f \<in> fst ` set (files r)
        \<and> flatten_main t' mf' = Inr r' \<and> item \<in> set (index_data r') \<and> e \<in> set (snd item)"
  then have "below_subdirs r'"
    using flatten_main_below [of t' mf' r'] by simp
  then have "2 \<le> length (rel_path e)"
    using h by (auto simp: below_subdirs_def)
  then show "rel_path e \<noteq> [f]"
    by auto
qed

lemma merged_archive_example:
  "map_sum id (map_option out_file) (combine_swift_files two_dirs_tree [[''A''], [''B'']])
     = Inr (Some ''Merged_A+B.txt'')"
  by code_simp

lemma example_run_files:
  "map_sum id (\<lambda>r. map fst (files r)) (flatten_main example_tree None)
     = Inr [''A.txt'', ''SourceIndex.txt'']"
  by code_simp

lemma rerun_index:
  "map_sum id index_data (flatten_main rerun_tree None)
     = Inr [(''sub'',
             [\<lparr>start_line = 1, filename = ''n.md'', loc = 1, rel_path = [''sub'', ''n.md'']\<rparr>])]"
  by code_simp

theorem generated_files_not_ingested_witness:
  "(\<exists>a. combine_swift_files two_dirs_tree [[''A''], [''B'']] = Inr (Some a)
        \<and> out_file a = ''Merged_A+B.txt''
        \<and> [''out'', ''Merged_A+B.txt''] \<notin> set (gather_swift_files nested_output_tree [''out'']))
   \<and> (\<exists>r r' e. flatten_main example_tree None = Inr r \<and> ''A.txt'' \<in> fst ` set (files r)
        \<and> flatten_main rerun_tree None = Inr r' \<and> (''sub'', [e]) \<in> set (index_data r')
        \<and> rel_path e \<noteq> [''A.txt''])"
proof (rule conjI)
  obtain a where a: "combine_swift_files two_dirs_tree [[''A''], [''B'']] = Inr (Some a)"
    and n: "out_file a = ''Merged_A+B.txt''"
    using merged_archive_example
    by (cases "combine_swift_files two_dirs_tree [[''A''], [''B'']]") auto
  have "name [''out'', ''Merged_A+B.txt''] = out_file a"
    using n by (simp add: name_def)
  then have "[''out'', ''Merged_A+B.txt''] \<notin> set (gather_swift_files nested_output_tree [''out''])"
    using a generated_files_not_ingested
      [where t = two_dirs_tree and subdirs = "[[''A''], [''B'']]" and a = a
        and p = "[''out'', ''Merged_A+B.txt'']" and t' = nested_output_tree and d = "[''out'']"]
    by simp
  then show "\<exists>a. combine_swift_files two_dirs_tree [[''A''], [''B'']] = Inr (Some a)
        \<and> out_file a = ''Merged_A+B.txt''
        \<and> [''out'', ''Merged_A+B.txt''] \<notin> set (gather_swift_files nested_output_tree [''out''])"
    using a n by blast
next
  obtain r where r: "flatten_main example_tree None = Inr r"
    and fr: "map fst (files r) = [''A.txt'', ''SourceIndex.txt'']"
    using example_run_files by (cases "flatten_main example_tree None") auto
  let ?e = "\<lparr>start_line = 1, filename = ''n.md'', loc = 1, rel_path = [''sub'', ''n.md'']\<rparr>"
  obtain r' where r': "flatten_main rerun_tree None = Inr r'"
    and ir: "index_data r' = [(''sub'', [?e])]"
    using rerun_index by (cases "flatten_main rerun_tree None") auto
  have f: "''A.txt'' \<in> fst ` set (files r)"
    using fr by (metis list.set_intros(1) set_map)
  have i: "(''sub'', [?e]) \<in> set (index_data r')"
    using ir by simp
  have "rel_path ?e \<noteq> [''A.txt'']"
    using r f r' i generated_files_not_ingested
      [where t = example_tree and mf = None and r = r and f = "''A.txt''"
        and t' = rerun_tree and mf' = None and r' = r' and item = "(''sub'', [?e])" and e = ?e]
    by simp
  then show "\<exists>r r' e. flatten_main example_tree None = Inr r \<and> ''A.txt'' \<in> fst ` set (files r)
        \<and> flatten_main rerun_tree None = Inr r' \<and> (''sub'', [e]) \<in> set (index_data r')
        \<and> rel_path e \<noteq> [''A.txt'']"
    using r f r' i by blast
qed

text \<open>
  C4 as the specification states it fails: a run on \<open>example_tree\<close> writes \<open>A.txt\<close> and
  \<open>SourceIndex.txt\<close>, and the discoverer returns both files when it meets them in a
  directory, leaving out only the merged archive.
\<close>

theorem naming_filter_counterexample:
  "map_sum id (\<lambda>r. map fst (files r)) (flatten_main example_tree None)
     = Inr [''A.txt'', ''SourceIndex.txt'']
   \<and> gather_swift_files nested_output_tree [''out'']
     = [[''out'', ''A.txt''], [''out'', ''SourceIndex.txt'']]"
proof
  show "map_sum id (\<lambda>r. map fst (files r)) (flatten_main example_tree None)
     = Inr [''A.txt'', ''SourceIndex.txt'']"
    by (rule example_run_files)
  show "gather_swift_files nested_output_tree [''out'']
     = [[''out'', ''A.txt''], [''out'', ''SourceIndex.txt'']]"
    by code_simp
qed

subsection \<open>Counting tolerates unreadable files, writing does not\<close>

lemma count_loop_sum:
  "count_loop t fs tot
     = tot + sum_list (map (\<lambda>f. case read_text t f of Inl e \<Rightarrow> 0 | Inr s \<Rightarrow> int (num_lines s)) fs)"
  by (induction fs arbitrary: tot) (auto split: sum.splits)

lemma read_text_error: "read_text t f = Inl e \<Longrightarrow> e = OSError"
  by (auto simp: read_text_def split: option.splits node.splits)

lemma write_files_fails:
  assumes "f \<in> set fs" and "read_text t f = Inl err"
  shows "write_files t fs lc out es = Inl OSError"
  using assms
proof (induction fs arbitrary: lc out es)
  case Nil
  then show ?case by simp
next
  case (Cons x fs)
  show ?case
  proof (cases "read_text t x")
    case (Inl e)
    then show ?thesis
      using read_text_error [OF Inl] by (simp add: Let_def)
  next
    case (Inr contents)
    with Cons.prems have "f \<in> set fs"
      by auto
    then show ?thesis
      using Cons.IH Cons.prems(2) Inr by (simp add: Let_def)
  qed
qed

lemma combine_fails:
  assumes "d \<in> set subdirs" and "f \<in> set (gather_swift_files t d)" and "read_text t f = Inl err"
  shows "combine_swift_files t subdirs = Inl OSError"
proof -
  let ?all = "concat (map (gather_swift_files t) subdirs)"
  have mem: "f \<in> set ?all"
    using assms(1,2) by auto
  then have "?all \<noteq> []"
    by (metis empty_iff empty_set)
  moreover have "f \<in> set (sort ?all)"
    using mem by simp
  then have "write_files t (sort ?all) 1 [] [] = Inl OSError"
    using assms(3) by (rule write_files_fails)
  ultimately show ?thesis
    by (simp add: combine_swift_files_def Let_def)
qed

lemma flatten_groups_fails:
  assumes "g \<in> set (concat gs)" and "f \<in> set (gather_swift_files t [g])"
    and "read_text t f = Inl err"
  shows "\<exists>e. flatten_groups t gs r = Inl e"
  using assms(1)
proof (induction gs arbitrary: r)
  case Nil
  then show ?case by simp
next
  case (Cons grp gs)
  show ?case
  proof (cases "g \<in> set grp")
    case True
    then have "[g] \<in> set (map (\<lambda>g. [g]) grp)"
      by simp
    then have "combine_swift_files t (map (\<lambda>g. [g]) grp) = Inl OSError"
      using assms(2,3) by (rule combine_fails)
    then show ?thesis
      by (simp add: Let_def)
  next
    case False
    with Cons.prems have "g \<in> set (concat gs)"
      by simp
    then have rest: "\<And>r. \<exists>e. flatten_groups t gs r = Inl e"
      by (rule Cons.IH)
    show ?thesis
    proof (cases "combine_swift_files t (map (\<lambda>g. [g]) grp)")
      case (Inl e)
      then show ?thesis by (simp add: Let_def)
    next
      case (Inr res)
      then show ?thesis
        using rest by (cases res) (simp_all add: Let_def)
    qed
  qed
qed

subsection \<open>The groups main hands to the writer\<close>

lemma fold_update_keys:
  "fst ` set (fold (\<lambda>d m. AList.update (k d) (v d) m) ds m0) = fst ` set m0 \<union> k ` set ds"
  by (induction ds arbitrary: m0) (auto simp: dom_update)

lemma merge_smallest_dirs_result:
  assumes "1 \<le> max_files"
  shows "\<exists>gs. merge_smallest_dirs dir_locs max_files = Inr gs
           \<and> mset (concat gs) = mset (map fst dir_locs) \<and> [] \<notin> set gs
           \<and> int (length gs) =
               (if max_files < int (length dir_locs) then max_files else int (length dir_locs))"
proof -
  let ?groups = "map (\<lambda>d. [d]) (map fst dir_locs)"
  have keys: "\<forall>g \<in> set ?groups. \<forall>d \<in> set g. map_of dir_locs d \<noteq> None"
    by (auto simp: map_of_eq_None_iff image_iff)
  have cc: "concat ?groups = map fst dir_locs"
    by (induction dir_locs) auto
  obtain gs where gs: "merge_loop (map_of dir_locs) max_files ?groups = Inr gs"
      "mset (concat gs) = mset (concat ?groups)"
      "[] \<notin> set ?groups \<longrightarrow> [] \<notin> set gs"
      "int (length gs) = (if max_files < int (length ?groups) then max_files else int (length ?groups))"
    using merge_loop_partition [OF assms keys] by blast
  have "mset (concat gs) = mset (map fst dir_locs)"
    using gs(2) cc by simp
  moreover have "[] \<notin> set gs"
    using gs(3) by auto
  ultimately show ?thesis
    using gs(1,4) by (simp add: merge_smallest_dirs_def)
qed

lemma main_groups_cover:
  "\<exists>gs. main_groups t mf = Inr gs
      \<and> set (concat gs) = name ` set (filter (is_dir t) (sort (iterdir t [])))"
proof -
  let ?subdirs = "filter (is_dir t) (sort (iterdir t []))"
  let ?dir_locs = "fold (\<lambda>d m. AList.update (name d) (count_lines_in_dir t d) m) ?subdirs []"
  have ident: "set (concat (map (\<lambda>d. [name d]) ?subdirs)) = name ` set ?subdirs"
    by auto
  show ?thesis
  proof (cases "\<exists>m. mf = Some m \<and> m \<noteq> 0 \<and> int (length ?subdirs) > m")
    case False
    then show ?thesis
      using ident by (cases mf) (auto simp: main_groups_def Let_def)
  next
    case True
    then obtain m where m: "mf = Some m" "m \<noteq> 0" "int (length ?subdirs) > m"
      by blast
    have "1 \<le> max (m - 1) 1"
      by simp
    from merge_smallest_dirs_result [OF this, of ?dir_locs] obtain gs where
      gs: "merge_smallest_dirs ?dir_locs (max (m - 1) 1) = Inr gs"
      and ms: "mset (concat gs) = mset (map fst ?dir_locs)"
      by blast
    have "set (concat gs) = fst ` set ?dir_locs"
      using mset_eq_setD [OF ms] by simp
    also have "\<dots> = name ` set ?subdirs"
      using fold_update_keys [of name "count_lines_in_dir t" ?subdirs "[]"] by simp
    finally show ?thesis
      using gs m by (simp add: main_groups_def Let_def)
  qed
qed

lemma top_level_dir:
  assumes "is_dir t d" and "length d = 1"
  shows "d \<in> set (filter (is_dir t) (sort (iterdir t [])))" and "[name d] = d"
proof -
  from assms(2) obtain n where d: "d = [n]"
    by (cases d) simp_all
  have "map_of t d = Some Dir"
    using assms(1) by (simp add: is_dir_def)
  then have "d \<in> fst ` set t"
    by (metis domI dom_map_of_conv_image_fst)
  then show "d \<in> set (filter (is_dir t) (sort (iterdir t [])))"
    using assms(1) d by (simp add: iterdir_def)
  show "[name d] = d"
    using d by (simp add: name_def)
qed

subsection \<open>A tree without eligible files\<close>

text \<open>
  With no eligible file anywhere, a run over at least one top-level directory raises
  \<open>TypeError\<close>; only a root without any top-level directory gets to the end, having
  written nothing.
\<close>

lemma combine_nothing_eligible:
  assumes "\<forall>d. gather_swift_files t d = []"
  shows "combine_swift_files t subdirs = Inr None"
proof -
  have "concat (map (gather_swift_files t) subdirs) = []"
    using assms by (induction subdirs) simp_all
  then show ?thesis
    by (simp add: combine_swift_files_def)
qed

lemma no_eligible_file_raises:
  assumes "\<forall>d. gather_swift_files t d = []" and "is_dir t d" and "length d = 1"
  shows "flatten_main t mf = Inl TypeError"
proof -
  obtain gs where gs: "main_groups t mf = Inr gs"
    and cover: "set (concat gs) = name ` set (filter (is_dir t) (sort (iterdir t [])))"
    using main_groups_cover by blast
  have "name d \<in> set (concat gs)"
    using cover top_level_dir(1) [OF assms(2,3)] by blast
  then obtain grp rest where "gs = grp # rest"
    by (cases gs) auto
  then have "flatten_groups t gs \<lparr>files = [], index_data = [], merge_info = []\<rparr> = Inl TypeError"
    using combine_nothing_eligible [OF assms(1)] by (simp add: Let_def)
  then show ?thesis
    using gs by (simp add: flatten_main_def)
qed

lemma no_top_level_directory_reports:
  assumes "filter (is_dir t) (sort (iterdir t [])) = []"
  shows "flatten_main t mf = Inr \<lparr>files = [], index_data = [], merge_info = []\<rparr>"
proof -
  have "merge_smallest_dirs [] m = Inr []" if "1 \<le> m" for m
    using that by (simp add: merge_smallest_dirs_def merge_loop.simps)
  then have "main_groups t mf = Inr []"
    using assms by (cases mf) (simp_all add: main_groups_def)
  then show ?thesis
    by (simp add: flatten_main_def)
qed

text \<open>
  C2. A tree whose only top-level directory has no eligible file: the writer returns
  \<open>None\<close> for its group, and \<open>main\<close> raises \<open>TypeError\<close> when it unpacks that result,
  instead of finishing with its report that nothing was found.
\<close>

theorem empty_group_raises: "flatten_main empty_dir_tree None = Inl TypeError"
  by code_simp

text \<open>
  C7. The line count of a directory is the sum over its eligible files of the lines read,
  a file that cannot be read counting 0: counting returns a number whatever the files do.
  When a top-level directory holds an eligible file that cannot be read, the run raises.
\<close>

theorem read_failure_asymmetry:
  "count_lines_in_dir t d
     = sum_list (map (\<lambda>f. case read_text t f of Inl e \<Rightarrow> 0 | Inr s \<Rightarrow> int (num_lines s))
         (gather_swift_files t d))
   \<and> (is_dir t d \<and> length d = 1 \<and> f \<in> set (gather_swift_files t d) \<and> read_text t f = Inl err
        \<longrightarrow> (\<exists>e. flatten_main t mf = Inl e))"
proof (intro conjI impI)
  show "count_lines_in_dir t d
     = sum_list (map (\<lambda>f. case read_text t f of Inl e \<Rightarrow> 0 | Inr s \<Rightarrow> int (num_lines s))
         (gather_swift_files t d))"
    by (simp add: count_lines_in_dir_def count_loop_sum)
next
  assume a: "is_dir t d \<and> length d = 1 \<and> f \<in> set (gather_swift_files t d) \<and> read_text t f = Inl err"
  obtain gs where gs: "main_groups t mf = Inr gs"
    and cover: "set (concat gs) = name ` set (filter (is_dir t) (sort (iterdir t [])))"
    using main_groups_cover by blast
  have "name d \<in> set (concat gs)"
    using cover top_level_dir(1) [of t d] a by auto
  moreover have "f \<in> set (gather_swift_files t [name d])"
    using a top_level_dir(2) [of t d] by simp
  ultimately obtain e where
    "flatten_groups t gs \<lparr>files = [], index_data = [], merge_info = []\<rparr> = Inl e"
    using flatten_groups_fails a by blast
  then show "\<exists>e. flatten_main t mf = Inl e"
    using gs by (simp add: flatten_main_def)
qed

theorem read_failure_asymmetry_witness:
  "count_lines_in_dir unreadable_tree [''A''] = 2
   \<and> is_dir unreadable_tree [''A'']
   \<and> [''A'', ''a.swift''] \<in> set (gather_swift_files unreadable_tree [''A''])
   \<and> read_text unreadable_tree [''A'', ''a.swift''] = Inl OSError
   \<and> (\<exists>e. flatten_main unreadable_tree None = Inl e)"
proof -
  have c: "count_lines_in_dir unreadable_tree [''A''] = 2"
    by code_simp
  have d: "is_dir unreadable_tree [''A'']"
    by code_simp
  have g: "[''A'', ''a.swift''] \<in> set (gather_swift_files unreadable_tree [''A''])"
    by code_simp
  have r: "read_text unreadable_tree [''A'', ''a.swift''] = Inl OSError"
    by code_simp
  have "\<exists>e. flatten_main unreadable_tree None = Inl e"
    using d g r read_failure_asymmetry
      [of unreadable_tree "[''A'']" "[''A'', ''a.swift'']" OSError None]
    by simp
  then show ?thesis
    using c d g r by blast
qed

subsection \<open>Independence of the enumeration order\<close>














subsection \<open>A run with the output directory outside the tree\<close>











section \<open>Properties of the template export\<close>

lemma clean_regular:
  "regular (Directory cs) \<Longrightarrow> ensure_clean_directory (Some (Directory cs)) = Inr (Directory [])"
  "list_all (\<lambda>c. regular (snd c)) cs \<Longrightarrow> clean_children cs = Inr []"
proof -
  have "(\<forall>n. dir = Some n \<longrightarrow> regular n \<longrightarrow> (\<forall>cs. n = Directory cs \<longrightarrow> ensure_clean_directory dir = Inr (Directory [])))"
    and "list_all (\<lambda>c. regular (snd c)) cs \<longrightarrow> clean_children cs = Inr []" for dir cs
    by (induction dir and cs rule: ensure_clean_directory_clean_children.induct) auto
  then show "regular (Directory cs) \<Longrightarrow> ensure_clean_directory (Some (Directory cs)) = Inr (Directory [])"
    "list_all (\<lambda>c. regular (snd c)) cs \<Longrightarrow> clean_children cs = Inr []"
    by blast+
qed

lemma map_of_Some_name: "map_of cs nm = Some v \<Longrightarrow> nm \<in> fst ` set cs"
  by (metis domI dom_map_of_conv_image_fst)

lemma mkdir_names:
  assumes "mkdir nm cs = Inr cs'"
  shows "fst ` set cs' = insert nm (fst ` set cs)"
proof (cases "map_of cs nm")
  case None
  then show ?thesis
    using assms by (auto simp: mkdir_def)
next
  case (Some v)
  then have "cs' = cs"
    using assms by (cases v) (simp_all add: mkdir_def)
  then show ?thesis
    using map_of_Some_name [OF Some] by auto
qed

lemma write_text_names:
  assumes "write_text nm s cs = Inr cs'"
  shows "fst ` set cs' = insert nm (fst ` set cs)"
proof (cases "map_of cs nm")
  case None
  then show ?thesis
    using assms by (auto simp: write_text_def)
next
  case (Some v)
  then have "cs' = AList.update nm (RegFile s) cs"
    using assms by (cases v) (simp_all add: write_text_def)
  then show ?thesis
    by (simp add: dom_update)
qed

lemma export_row_names:
  assumes "export_row row cs = Inr cs'"
  shows "fst ` set cs' = insert (slug row) (fst ` set cs)"
proof -
  from assms obtain cs1 v where "mkdir (slug row) cs = Inr cs1"
    and "cs' = AList.update (slug row) v cs1"
    by (auto simp: export_row_def and_then_def split: sum.splits option.splits fsnode.splits)
  then show ?thesis
    using mkdir_names [of "slug row" cs cs1] by (simp add: dom_update)
qed

lemma export_rows_names:
  "export_rows rows cs = Inr cs' \<Longrightarrow> fst ` set cs' = fst ` set cs \<union> slug ` set rows"
proof (induction rows arbitrary: cs)
  case Nil
  then show ?case by simp
next
  case (Cons row rows)
  from Cons.prems obtain cs1 where r: "export_row row cs = Inr cs1" and rest: "export_rows rows cs1 = Inr cs'"
    by (auto simp: and_then_def split: sum.splits)
  show ?case
    using Cons.IH [OF rest] export_row_names [OF r] by auto
qed

lemma export_templates_names:
  assumes "export_templates rows catalog (Directory []) = Inr out"
  shows "\<exists>cs. out = Directory cs \<and> fst ` set cs = insert ''catalog.json'' (slug ` set rows)"
proof -
  from assms obtain cs1 cs2 where "export_rows rows [] = Inr cs1"
    and "write_text ''catalog.json'' catalog cs1 = Inr cs2" and "out = Directory cs2"
    by (auto simp: export_templates_def and_then_def split: sum.splits)
  then show ?thesis
    using export_rows_names write_text_names by fastforce
qed

text \<open>
  Where everything below the output directory is a regular file or a directory, the
  clean-up leaves the directory empty and the run ends with what the export writes into an
  empty directory: entries named after the slugs of the rows, and \<open>catalog.json\<close>.
\<close>

lemma regular_output_pre_cleared:
  assumes "regular (Directory cs)"
  shows "ensure_clean_directory (Some (Directory cs)) = Inr (Directory [])
       \<and> export_main True rows catalog (Some (Directory cs))
           = export_templates rows catalog (Directory [])
       \<and> (\<forall>out. export_main True rows catalog (Some (Directory cs)) = Inr out \<longrightarrow>
            (\<exists>cs'. out = Directory cs'
               \<and> fst ` set cs' = insert ''catalog.json'' (slug ` set rows)))"
proof -
  have c: "ensure_clean_directory (Some (Directory cs)) = Inr (Directory [])"
    using assms by (rule clean_regular(1))
  then have m: "export_main True rows catalog (Some (Directory cs))
      = export_templates rows catalog (Directory [])"
    by (simp add: export_main_def and_then_def)
  show ?thesis
    using c m export_templates_names [of rows catalog] by simp
qed

lemma regular_output_example:
  "export_main True [example_row] ''{}'' (Some (Directory old_output))
       = Inr (Directory
           [(''modern'',
             Directory
               [(''modern.html'', RegFile ''<p>''), (''modern.txt'', RegFile ''t''),
                (''modern.manifest.json'', RegFile ''{}''),
                (''modern.seed.json'', RegFile ''{}'')]),
            (''catalog.json'', RegFile ''{}'')])"
proof -
  have r: "regular (Directory old_output)"
    by (simp add: old_output_def)
  have "export_templates [example_row] ''{}'' (Directory [])
       = Inr (Directory
           [(''modern'',
             Directory
               [(''modern.html'', RegFile ''<p>''), (''modern.txt'', RegFile ''t''),
                (''modern.manifest.json'', RegFile ''{}''),
                (''modern.seed.json'', RegFile ''{}'')]),
            (''catalog.json'', RegFile ''{}'')])"
    by (simp add: export_templates_def export_row_def write_template_files_def
        example_row_def and_then_def mkdir_def write_text_def)
  then show ?thesis
    using regular_output_pre_cleared [OF r, of "[example_row]" "''{}''"] by simp
qed

text \<open>
  C10. The clean-up does not remove every entry below the output directory.  A dangling
  link in the output directory is skipped and is still there after the run, beside the
  catalog; a subdirectory that holds one is emptied of its files but cannot be removed, and
  a child that is a link to a directory has the contents of its target removed and then
  \<open>rmdir\<close> raises on the link: in both cases the run stops before anything is exported.
\<close>

theorem export_leaves_links:
  "export_main True [] ''{}'' (Some (Directory [(''stale'', DanglingLink)]))
     = Inr (Directory [(''stale'', DanglingLink), (''catalog.json'', RegFile ''{}'')])
   \<and> export_main True [] ''{}''
       (Some (Directory [(''old'', Directory [(''a.html'', RegFile ''b''), (''stale'', DanglingLink)])]))
     = Inl OSError
   \<and> export_main True [] ''{}''
       (Some (Directory [(''linked'', DirLink [(''a.html'', RegFile ''b'')])]))
     = Inl OSError"
  by (simp add: export_main_def and_then_def export_templates_def write_text_def)

end
